theory Spec2Isabelle
  imports Main
begin

section \<open>ToolMaster.js 4.2.0: the asynchronous helpers\<close>

text \<open>
  The theory embeds the two asynchronous helpers of \<^verbatim>\<open>ToolMaster@4.2.0.js\<close>,
  \<^verbatim>\<open>retry\<close> (lines 120-128) and \<^verbatim>\<open>parallel\<close> (lines 136-153).
\<close>

subsection \<open>Numbers\<close>

text \<open>
  A number of JavaScript is a binary64 floating-point number. \<^verbatim>\<open>retry\<close> computes
  with its numbers: \<^verbatim>\<open>retries - 1\<close> and \<^verbatim>\<open>delay * 2\<close>. Both keep an integer an
  integer, so the numbers of the model are the integers and the two infinities; fractions
  and NaN are left out. \<open>Num n\<close> is a number of JavaScript when \<open>n\<close> is a binary64
  number, that is when \<open>round64 n = Num n\<close>.

  The result of an operation is the exact result rounded to the nearest binary64 number,
  ties to the even significand. Binary64 numbers have 53 significant bits: below
  \<open>2 ^ 53\<close> every integer is one, and from \<open>2 ^ e\<close> to \<open>2 ^ (e + 1)\<close> with
  \<open>e \<ge> 53\<close> they are the multiples of \<open>2 ^ (e - 52)\<close>, which is \<open>ulp\<close>. A rounded
  magnitude of \<open>2 ^ 1024\<close> or more is an infinity.

  \<^verbatim>\<open>parallel\<close> only compares its limit with the size of a set; the limit is an
  \<^typ>\<open>int\<close>.
\<close>

datatype number = Num int | PosInf | NegInf

function ulp :: "int \<Rightarrow> int" where
  "ulp a = (if a < 2 ^ 53 then 1 else 2 * ulp (a div 2))"
  by pat_completeness auto
termination
  by (relation "measure nat") auto

declare ulp.simps [simp del]

text \<open>The binary64 number nearest to a magnitude \<open>a \<ge> 0\<close>, before the overflow test.\<close>

definition nearest :: "int \<Rightarrow> int" where
  "nearest a =
     (let q = ulp a; lo = (a div q) * q; r = a mod q
      in if 2 * r < q \<or> (2 * r = q \<and> even (a div q)) then lo else lo + q)"

definition round64 :: "int \<Rightarrow> number" where
  "round64 x =
     (let m = nearest \<bar>x\<bar>
      in if 2 ^ 1024 \<le> m then (if x < 0 then NegInf else PosInf)
         else Num (if x < 0 then - m else m))"

text \<open>The three operations of \<^verbatim>\<open>retry\<close> on numbers: \<^verbatim>\<open>retries <= 0\<close>,
  \<^verbatim>\<open>retries - 1\<close> and \<^verbatim>\<open>delay * 2\<close>; and the numbers below 0.\<close>

fun le_zero :: "number \<Rightarrow> bool" where
  "le_zero (Num n) = (n \<le> 0)"
| "le_zero PosInf = False"
| "le_zero NegInf = True"

fun minus_one :: "number \<Rightarrow> number" where
  "minus_one (Num n) = round64 (n - 1)"
| "minus_one PosInf = PosInf"
| "minus_one NegInf = NegInf"

fun times_two :: "number \<Rightarrow> number" where
  "times_two (Num n) = round64 (n * 2)"
| "times_two PosInf = PosInf"
| "times_two NegInf = NegInf"

fun negative :: "number \<Rightarrow> bool" where
  "negative (Num n) = (n < 0)"
| "negative PosInf = False"
| "negative NegInf = True"

subsection \<open>retry\<close>

text \<open>
  \<^verbatim>\<open>
  async retry(fn, retries = 3, delay = 1000) {
    try {
      return await fn();
    } catch (error) {
      if (retries <= 0) throw error;
      await new Promise(res => setTimeout(res, delay));
      return this.retry(fn, retries - 1, delay * 2);
    }
  }
  \<close>
  An operation \<^verbatim>\<open>fn\<close> is a zero-argument callable with side effects: it reads and
  changes a world \<open>'w\<close> and settles with an error (\<open>Inl\<close>) or a value (\<open>Inr\<close>).
  The run of \<^verbatim>\<open>retry\<close> is instrumented with the number of invocations of
  \<^verbatim>\<open>fn\<close> and with the list of delays handed to \<^verbatim>\<open>setTimeout\<close>, in order.
  The world changes by the invocations of \<^verbatim>\<open>fn\<close> only; a wait leaves it as it is.
  The defaults \<^verbatim>\<open>retries = 3\<close> and \<^verbatim>\<open>delay = 1000\<close> are the call
  \<open>retry fn (Num 3) (Num 1000)\<close>.

  The recursion need not end: above \<open>2 ^ 53\<close> the budget \<^verbatim>\<open>retries - 1\<close> can round
  back to \<^verbatim>\<open>retries\<close>, and the budget \<open>PosInf\<close> never shrinks. The result is an
  option, \<open>None\<close> for a call that never returns, and a theorem that \<^verbatim>\<open>retry\<close> returns
  states the result as \<open>Some\<close>.
\<close>

type_synonym ('w, 'e, 'a) operation = "'w \<Rightarrow> ('e + 'a) \<times> 'w"

record 'w retry_state =
  world :: 'w
  attempts :: nat
  waited :: "number list"

definition invoke :: "('w, 'e, 'a) operation \<Rightarrow> 'w retry_state \<Rightarrow> ('e + 'a) \<times> 'w retry_state" where
  "invoke fn st =
     (case fn (world st) of
        (r, w') \<Rightarrow> (r, st\<lparr>world := w', attempts := Suc (attempts st)\<rparr>))"

definition setTimeout :: "number \<Rightarrow> 'w retry_state \<Rightarrow> 'w retry_state" where
  "setTimeout delay st = st\<lparr>waited := waited st @ [delay]\<rparr>"

partial_function (option) retry ::
  "('w, 'e, 'a) operation \<Rightarrow> number \<Rightarrow> number \<Rightarrow> 'w retry_state \<Rightarrow>
     (('e + 'a) \<times> 'w retry_state) option" where
  "retry fn retries delay st =
     (case invoke fn st of
        (Inr v, st1) \<Rightarrow> Some (Inr v, st1)
      | (Inl error, st1) \<Rightarrow>
          if le_zero retries then Some (Inl error, st1)
          else retry fn (minus_one retries) (times_two delay) (setTimeout delay st1))"

text \<open>The behaviour of an operation on its own: the world after \<open>n\<close> invocations, and
  the outcome of invocation number \<open>n\<close> (counted from 0).\<close>

fun world_after :: "('w, 'e, 'a) operation \<Rightarrow> 'w \<Rightarrow> nat \<Rightarrow> 'w" where
  "world_after fn w 0 = w"
| "world_after fn w (Suc n) = world_after fn (snd (fn w)) n"

definition outcome :: "('w, 'e, 'a) operation \<Rightarrow> 'w \<Rightarrow> nat \<Rightarrow> 'e + 'a" where
  "outcome fn w n = fst (fn (world_after fn w n))"

text \<open>The first \<open>k\<close> delays of a run that starts with \<open>delay\<close>: each is
  \<^verbatim>\<open>delay * 2\<close> of the one before, as line 126 computes it.\<close>

primrec backoff :: "number \<Rightarrow> nat \<Rightarrow> number list" where
  "backoff delay 0 = []"
| "backoff delay (Suc k) = delay # backoff (times_two delay) k"


definition always_fails :: "(nat, nat, string) operation" where
  "always_fails n = (Inl n, Suc n)"

definition succeeds :: "(nat, string, string) operation" where
  "succeeds n = (Inr ''payload'', Suc n)"


subsection \<open>parallel\<close>

text \<open>
  \<^verbatim>\<open>
  async parallel(tasks, concurrency = 5) {
    const results = [];
    const executing = new Set();

    for (const [i, task] of tasks.entries()) {
      const promise = Promise.resolve().then(task);
      results[i] = promise;
      const cleanup = () => executing.delete(promise);
      promise.then(cleanup).catch(cleanup);
      executing.add(promise);

      if (executing.size >= concurrency) {
        await Promise.race(executing);
      }
    }

    return Promise.all(results);
  }
  \<close>
  JavaScript runs this function on one thread: its code runs without interruption
  between two suspension points, and everything else happens in jobs of the event loop.
  The model is a state machine. Its state holds the variables of the function
  (\<open>index\<close> for \<^verbatim>\<open>i\<close>, \<open>results\<close>, \<open>executing\<close>) and the point where the
  function is suspended (\<open>phase\<close>); the jobs of the event loop are the events.

  \<^item> A task is represented by the outcome with which the promise
    \<^verbatim>\<open>Promise.resolve().then(task)\<close> settles: \<open>Inl e\<close> for a rejection (the task
    throws, or the promise it returns rejects), \<open>Inr v\<close> for a value. When it settles
    is the choice of the environment: event \<open>Settle p\<close>. A task that never settles has
    no such event in the schedule.
  \<^item> The promise of task \<open>p\<close> is named by \<open>p\<close>. \<open>results ! p\<close> is \<open>None\<close> while that
    promise is pending and \<open>Some r\<close> once it has settled with \<open>r\<close>.
  \<^item> \<open>Cleanup p\<close> is the job that runs \<^verbatim>\<open>cleanup\<close> for a settled promise
    (\<^verbatim>\<open>executing.delete(promise)\<close>). It is a job of its own, queued when the promise
    settles, so other jobs may run between the two.
  \<^item> \<open>Resume\<close> is the job that continues the function after
    \<^verbatim>\<open>await Promise.race(executing)\<close>. The reactions of a promise run in the order of
    their registration, and \<^verbatim>\<open>promise.then(cleanup)\<close> is registered when the promise is
    created, before any race sees it. When the promise fulfils, \<^verbatim>\<open>cleanup\<close> runs
    before the race settles; when it rejects, \<^verbatim>\<open>cleanup\<close> runs one job later, through
    \<^verbatim>\<open>catch\<close>, and so does the continuation, which is queued by the race. Either
    way the promise that settled the race has left \<open>executing\<close> when the function
    continues: \<open>Resume\<close> waits for its \<open>Cleanup\<close>.
  \<^item> The job that invokes a task is queued by \<^verbatim>\<open>Promise.resolve().then(task)\<close> and
    runs before any job queued later, in particular before the function continues. The
    model counts a task as invoked and active from the iteration that creates its promise
    until that promise settles, which contains the time the operation really runs.
  An event that is not enabled in a state leaves the state unchanged.
\<close>

text \<open>The jobs of the event loop that concern a run of \<^verbatim>\<open>parallel\<close>.\<close>

datatype event = Settle nat | Cleanup nat | Resume

text \<open>
  Where the function stands: \<open>Running\<close> while its own code executes, \<open>AwaitRace ms\<close>
  while it is suspended at \<^verbatim>\<open>await Promise.race(executing)\<close> over the members \<open>ms\<close>
  with the race undecided, \<open>Woken p r\<close> once promise \<open>p\<close> has settled that race with
  \<open>r\<close> and the continuation is queued, \<open>AwaitAll\<close> after
  \<^verbatim>\<open>return Promise.all(results)\<close> while that promise is pending, and \<open>Resolved vs\<close> or
  \<open>Rejected e\<close> once the promise returned by \<^verbatim>\<open>parallel\<close> has settled.
\<close>

datatype ('e, 'a) phase =
    Running
  | AwaitRace "nat list"
  | Woken nat "'e + 'a"
  | AwaitAll
  | Resolved "'a list"
  | Rejected 'e

text \<open>
  The state of a run. \<open>invoked\<close> and \<open>high_water\<close> are instrumentation: the tasks
  invoked so far, in order, and the largest number of invocations that were active at the
  same time.
\<close>

record ('e, 'a) run =
  index :: nat
  results :: "('e + 'a) option list"
  executing :: "nat list"
  phase :: "('e, 'a) phase"
  invoked :: "nat list"
  high_water :: nat

definition initial :: "('e, 'a) run" where
  "initial = \<lparr>index = 0, results = [], executing = [], phase = Running, invoked = [], high_water = 0\<rparr>"

text \<open>The state of a promise of the \<open>results\<close> array; an index the array does not
  have yet is no settled promise.\<close>

definition promise_state :: "('e + 'a) option list \<Rightarrow> nat \<Rightarrow> ('e + 'a) option" where
  "promise_state rs j = (if j < length rs then rs ! j else None)"

text \<open>The number of invocations that are active: promises created and not yet settled.\<close>

definition active :: "('e, 'a) run \<Rightarrow> nat" where
  "active st = length (filter (\<lambda>r. r = None) (results st))"

text \<open>\<^verbatim>\<open>Set.prototype.add\<close> and \<^verbatim>\<open>Set.prototype.delete\<close>; a Set keeps its members
  in insertion order, which is the order \<^verbatim>\<open>Promise.race\<close> iterates in.\<close>

definition set_add :: "nat \<Rightarrow> nat list \<Rightarrow> nat list" where
  "set_add p ps = (if p \<in> set ps then ps else ps @ [p])"

definition set_delete :: "nat \<Rightarrow> nat list \<Rightarrow> nat list" where
  "set_delete p ps = filter (\<lambda>q. q \<noteq> p) ps"

text \<open>
  \<^verbatim>\<open>Promise.all(results)\<close>, at the moment of the call: it registers its reactions in
  index order, so among promises that have already rejected the first one in index order
  rejects it; it resolves with the values, in index order, when every promise has fulfilled;
  otherwise it stays pending.
\<close>

fun first_rejection :: "('e + 'a) option list \<Rightarrow> 'e option" where
  "first_rejection [] = None"
| "first_rejection (Some (Inl e) # rs) = Some e"
| "first_rejection (r # rs) = first_rejection rs"

fun all_values :: "('e + 'a) option list \<Rightarrow> 'a list option" where
  "all_values [] = Some []"
| "all_values (Some (Inr v) # rs) = map_option ((#) v) (all_values rs)"
| "all_values (r # rs) = None"

definition promise_all :: "('e + 'a) option list \<Rightarrow> ('e, 'a) phase" where
  "promise_all rs =
     (case first_rejection rs of
        Some e \<Rightarrow> Rejected e
      | None \<Rightarrow> (case all_values rs of Some vs \<Rightarrow> Resolved vs | None \<Rightarrow> AwaitAll))"

text \<open>
  \<^verbatim>\<open>await Promise.race(executing)\<close>: the race registers its reactions in iteration
  order, so a member that has already settled decides the race at once, the first such
  member in insertion order; with no settled member the function waits.
\<close>

fun first_settled :: "('e + 'a) option list \<Rightarrow> nat list \<Rightarrow> (nat \<times> ('e + 'a)) option" where
  "first_settled rs [] = None"
| "first_settled rs (p # ps) =
     (case promise_state rs p of Some r \<Rightarrow> Some (p, r) | None \<Rightarrow> first_settled rs ps)"

definition promise_race :: "('e, 'a) run \<Rightarrow> ('e, 'a) run" where
  "promise_race st =
     (case first_settled (results st) (executing st) of
        Some (p, r) \<Rightarrow> st\<lparr>phase := Woken p r\<rparr>
      | None \<Rightarrow> st\<lparr>phase := AwaitRace (executing st)\<rparr>)"

text \<open>
  Lines 141-145, the body of the loop before the test. \<^verbatim>\<open>tasks.entries()\<close> yields
  \<open>i = 0, 1, 2, \<dots>\<close>, so \<^verbatim>\<open>results[i] = promise\<close> always writes at the index equal to
  the length of \<open>results\<close>: it appends.
\<close>

definition start_task :: "('e, 'a) run \<Rightarrow> ('e, 'a) run" where
  "start_task st =
     (let i = index st;
          st1 = st\<lparr>index := Suc i, results := results st @ [None],
                   executing := set_add i (executing st), invoked := invoked st @ [i]\<rparr>
      in st1\<lparr>high_water := max (high_water st1) (active st1)\<rparr>)"

text \<open>
  The code of the function from the loop head at \<open>index\<close> to its next suspension point:
  lines 140-152.
\<close>

function loop :: "('e + 'a) list \<Rightarrow> int \<Rightarrow> ('e, 'a) run \<Rightarrow> ('e, 'a) run" where
  "loop tasks concurrency st =
     (if index st < length tasks then
        (let st1 = start_task st in
         if concurrency \<le> int (length (executing st1)) then promise_race st1
         else loop tasks concurrency st1)
      else st\<lparr>phase := promise_all (results st)\<rparr>)"
  by pat_completeness auto
termination
  by (relation "measure (\<lambda>(tasks, concurrency, st). length tasks - index st)")
     (auto simp: start_task_def Let_def)

declare loop.simps [simp del]

text \<open>
  One job of the event loop. \<open>Settle p\<close> settles the pending promise of a task that has
  been started, with the outcome of that task; it decides a pending race the promise is a
  member of, and a pending \<^verbatim>\<open>Promise.all\<close> rejects with it or resolves once every value
  is there. Tasks keep running after \<^verbatim>\<open>parallel\<close> has settled: nothing cancels them.
\<close>

fun step :: "('e + 'a) list \<Rightarrow> int \<Rightarrow> ('e, 'a) run \<Rightarrow> event \<Rightarrow> ('e, 'a) run" where
  "step tasks concurrency st (Settle p) =
     (if p < length tasks \<and> p < index st \<and> promise_state (results st) p = None then
        (let r = tasks ! p;
             st1 = st\<lparr>results := (results st)[p := Some r]\<rparr>
         in case phase st of
              AwaitRace members \<Rightarrow> if p \<in> set members then st1\<lparr>phase := Woken p r\<rparr> else st1
            | AwaitAll \<Rightarrow>
                (case r of
                   Inl e \<Rightarrow> st1\<lparr>phase := Rejected e\<rparr>
                 | Inr v \<Rightarrow>
                     (case all_values (results st1) of
                        Some vs \<Rightarrow> st1\<lparr>phase := Resolved vs\<rparr>
                      | None \<Rightarrow> st1))
            | _ \<Rightarrow> st1)
      else st)"
| "step tasks concurrency st (Cleanup p) =
     (if p \<in> set (executing st) \<and> promise_state (results st) p \<noteq> None
      then st\<lparr>executing := set_delete p (executing st)\<rparr>
      else st)"
| "step tasks concurrency st Resume =
     (case phase st of
        Woken p r \<Rightarrow>
          if p \<in> set (executing st) then st
          else (case r of
                  Inl e \<Rightarrow> st\<lparr>phase := Rejected e\<rparr>
                | Inr v \<Rightarrow> loop tasks concurrency (st\<lparr>phase := Running\<rparr>))
      | _ \<Rightarrow> st)"

text \<open>
  A run of \<^verbatim>\<open>parallel(tasks, concurrency)\<close>: the call executes the function up to its
  first suspension point, then the event loop runs the jobs of the schedule.
\<close>

definition parallel :: "('e + 'a) list \<Rightarrow> int \<Rightarrow> event list \<Rightarrow> ('e, 'a) run" where
  "parallel tasks concurrency schedule = foldl (step tasks concurrency) (loop tasks concurrency initial) schedule"


subsection \<open>Invariants of a run\<close>

text \<open>
  The bookkeeping is consistent: \<open>results\<close> has one promise for every task started, the
  tasks were invoked once each in input order, \<open>executing\<close> holds promises of started
  tasks without repetition, every pending promise is in \<open>executing\<close>, and a settled
  promise holds the outcome of its own task.
\<close>

definition well_formed :: "('e + 'a) list \<Rightarrow> ('e, 'a) run \<Rightarrow> bool" where
  "well_formed tasks st \<longleftrightarrow>
     index st \<le> length tasks \<and> length (results st) = index st \<and> invoked st = [0..<index st] \<and>
     distinct (executing st) \<and> set (executing st) \<subseteq> {..<index st} \<and>
     {p. p < index st \<and> results st ! p = None} \<subseteq> set (executing st) \<and>
     (\<forall>p<index st. results st ! p = None \<or> results st ! p = Some (tasks ! p))"

text \<open>
  The limit is respected: \<open>executing\<close> never holds more than \<open>c\<close> promises, and when a
  continuation is queued whose race was settled by a promise that has left \<open>executing\<close>,
  there is room for one more.
\<close>

definition bounded :: "int \<Rightarrow> ('e, 'a) run \<Rightarrow> bool" where
  "bounded c st \<longleftrightarrow>
     int (length (executing st)) \<le> c \<and> int (high_water st) \<le> c \<and>
     (case phase st of
        Woken p r \<Rightarrow> p \<in> set (executing st) \<or> int (length (executing st)) < c
      | _ \<Rightarrow> True)"

text \<open>What each suspension point knows about the promises.\<close>

definition phase_ok :: "('e + 'a) list \<Rightarrow> ('e, 'a) run \<Rightarrow> bool" where
  "phase_ok tasks st \<longleftrightarrow>
     (case phase st of
        Running \<Rightarrow> False
      | AwaitRace ms \<Rightarrow> ms = executing st \<and> ms \<noteq> [] \<and> (\<forall>p\<in>set ms. results st ! p = None)
      | Woken p r \<Rightarrow> p < index st \<and> results st ! p = Some r
      | AwaitAll \<Rightarrow>
          index st = length tasks \<and> first_rejection (results st) = None \<and> all_values (results st) = None
      | Resolved vs \<Rightarrow> index st = length tasks \<and> results st = map (\<lambda>v. Some (Inr v)) vs
      | Rejected e \<Rightarrow> (\<exists>p<index st. results st ! p = Some (Inl e)))"


section \<open>Properties of retry\<close>

subsection \<open>Rounding\<close>

lemma ulp_pos: "0 < ulp a"
  by (induction a rule: ulp.induct) (subst ulp.simps, simp)

lemma ulp_small: "a < 2 ^ 53 \<Longrightarrow> ulp a = 1"
  by (subst ulp.simps) simp


lemma nearest_fixed_iff: "nearest a = a \<longleftrightarrow> a mod ulp a = 0"
proof
  assume n: "nearest a = a"
  have q: "0 < ulp a" by (rule ulp_pos)
  have d: "a = (a div ulp a) * ulp a + a mod ulp a" by simp
  show "a mod ulp a = 0"
  proof (cases "2 * (a mod ulp a) < ulp a \<or> (2 * (a mod ulp a) = ulp a \<and> even (a div ulp a))")
    case True
    then have "nearest a = (a div ulp a) * ulp a"
      unfolding nearest_def Let_def by (rule if_P)
    then have "(a div ulp a) * ulp a = a" using n by simp
    then show ?thesis using d by linarith
  next
    case False
    then have "nearest a = (a div ulp a) * ulp a + ulp a"
      unfolding nearest_def Let_def by (rule if_not_P)
    then have "(a div ulp a) * ulp a + ulp a = a" using n by simp
    then have "a mod ulp a = ulp a" using d by linarith
    moreover have "a mod ulp a < ulp a" using q by (rule pos_mod_bound)
    ultimately show ?thesis by simp
  qed
next
  assume z: "a mod ulp a = 0"
  then have "(a div ulp a) * ulp a = a" by (simp add: mod_eq_0_iff_dvd)
  then show "nearest a = a" using z ulp_pos [of a] by (simp add: nearest_def Let_def)
qed

lemma nearest_small: "a < 2 ^ 53 \<Longrightarrow> nearest a = a"
  by (simp add: nearest_fixed_iff ulp_small)

lemma round64_small: "\<bar>x\<bar> < 2 ^ 53 \<Longrightarrow> round64 x = Num x"
proof -
  assume a: "\<bar>x\<bar> < 2 ^ 53"
  have "(2::int) ^ 53 < 2 ^ 1024" by simp
  then have "\<bar>x\<bar> < 2 ^ 1024" using a by linarith
  then show ?thesis using a by (simp add: round64_def Let_def nearest_small)
qed



lemma minus_one_exact: "0 < m \<Longrightarrow> m \<le> 2 ^ 53 \<Longrightarrow> minus_one (Num m) = Num (m - 1)"
  by (simp add: round64_small)



lemma ulp_power: "ulp (2 ^ (53 + j)) = 2 ^ Suc j"
proof (induction j)
  case 0
  have "ulp (2 ^ 53) = 2 * ulp (2 ^ 53 div 2)" by (subst ulp.simps) simp
  also have "(2::int) ^ 53 div 2 = 2 ^ 52" by simp
  also have "ulp (2 ^ 52) = 1" by (rule ulp_small) simp
  finally show ?case by simp
next
  case (Suc j)
  have "(2::int) ^ 53 \<le> 2 ^ (53 + Suc j)" by (rule power_increasing) simp_all
  then have "ulp (2 ^ (53 + Suc j)) = 2 * ulp (2 ^ (53 + Suc j) div 2)"
    by (subst ulp.simps) simp
  also have "(2::int) ^ (53 + Suc j) div 2 = 2 ^ (53 + j)"
  proof -
    have "(2::int) ^ (53 + Suc j) = 2 ^ (53 + j) * 2" by (simp only: add_Suc_right power_Suc2)
    then show ?thesis by simp
  qed
  finally show ?case using Suc.IH by simp
qed

lemma nearest_power: "nearest (2 ^ (53 + j)) = 2 ^ (53 + j)"
proof -
  have "(2::int) ^ Suc j dvd 2 ^ (53 + j)" by (rule le_imp_power_dvd) simp
  then show ?thesis by (simp only: nearest_fixed_iff ulp_power mod_eq_0_iff_dvd)
qed


subsection \<open>The runs of retry\<close>

lemma retry_success:
  "fst (fn (world st)) = Inr v \<Longrightarrow>
   retry fn retries delay st = Some (Inr v, st\<lparr>world := snd (fn (world st)), attempts := Suc (attempts st)\<rparr>)"
  by (cases "fn (world st)") (simp add: retry.simps [of fn retries delay st] invoke_def)

lemma retry_give_up:
  "fst (fn (world st)) = Inl e \<Longrightarrow> le_zero retries \<Longrightarrow>
   retry fn retries delay st = Some (Inl e, st\<lparr>world := snd (fn (world st)), attempts := Suc (attempts st)\<rparr>)"
  by (cases "fn (world st)") (simp add: retry.simps [of fn retries delay st] invoke_def)

lemma retry_again:
  "fst (fn (world st)) = Inl e \<Longrightarrow> \<not> le_zero retries \<Longrightarrow>
   retry fn retries delay st =
     retry fn (minus_one retries) (times_two delay)
       (st\<lparr>world := snd (fn (world st)), attempts := Suc (attempts st), waited := waited st @ [delay]\<rparr>)"
  by (cases "fn (world st)") (simp add: retry.simps [of fn retries delay st] invoke_def setTimeout_def)

lemma outcome_0: "outcome fn w 0 = fst (fn w)" by (simp add: outcome_def)
lemma outcome_Suc: "outcome fn w (Suc n) = outcome fn (snd (fn w)) n" by (simp add: outcome_def)


lemma retry_always_fails:
  "\<forall>i\<le>nat m. isl (outcome fn (world st) i) \<Longrightarrow> 0 \<le> m \<Longrightarrow> m \<le> 2 ^ 53 \<Longrightarrow>
   retry fn (Num m) delay st =
     Some (outcome fn (world st) (nat m),
      st\<lparr>world := world_after fn (world st) (Suc (nat m)), attempts := attempts st + Suc (nat m),
              waited := waited st @ backoff delay (nat m)\<rparr>)"
proof (induction "nat m" arbitrary: st m delay)
  case 0
  then have r: "m = 0" by simp
  from 0 have "isl (outcome fn (world st) 0)" by simp
  then obtain e where e: "fst (fn (world st)) = Inl e" by (auto simp: outcome_0 isl_def)
  show ?case using e r by (simp add: retry_give_up outcome_0)
next
  case (Suc k)
  from Suc.prems(1) have "isl (outcome fn (world st) 0)" by blast
  then obtain e where e: "fst (fn (world st)) = Inl e" by (auto simp: outcome_0 isl_def)
  let ?st = "st\<lparr>world := snd (fn (world st)), attempts := Suc (attempts st), waited := waited st @ [delay]\<rparr>"
  have k: "k = nat (m - 1)" "nat m = Suc k" "0 \<le> m - 1" "0 < m" "m - 1 \<le> 2 ^ 53"
    using Suc.hyps(2) Suc.prems(3) by auto
  have a: "\<forall>i\<le>nat (m - 1). isl (outcome fn (world ?st) i)"
    using Suc.prems(1) k by (auto simp: outcome_Suc [symmetric])
  have "retry fn (Num m) delay st = retry fn (minus_one (Num m)) (times_two delay) ?st"
    using e k by (intro retry_again) auto
  also have "minus_one (Num m) = Num (m - 1)" using k(4) Suc.prems(3) by (rule minus_one_exact)
  also have "retry fn (Num (m - 1)) (times_two delay) ?st = Some (outcome fn (world ?st) (nat (m - 1)),
      ?st\<lparr>world := world_after fn (world ?st) (Suc (nat (m - 1))), attempts := attempts ?st + Suc (nat (m - 1)),
              waited := waited ?st @ backoff (times_two delay) (nat (m - 1))\<rparr>)"
    by (rule Suc.hyps(1) [OF k(1) a k(3) k(5)])
  finally show ?case using k by (simp add: outcome_Suc)
qed

lemma world_after_counter: "(\<And>n. snd (fn n) = Suc n) \<Longrightarrow> world_after fn w i = w + i"
  by (induction i arbitrary: w) simp_all

text \<open>The two places where binary64 differs from the integers: \<open>2 ^ 1023\<close> is a binary64
  number and its double is an infinity; \<open>2 ^ 53 + 2\<close> is a binary64 number and one less
  is \<open>2 ^ 53 + 1\<close>, which is none and rounds to \<open>2 ^ 53\<close>; from \<open>2 ^ 53 + 4\<close> one less
  rounds back.\<close>

lemma double_overflows: "times_two (Num (2 ^ 1023)) = PosInf"
proof -
  have e: "(2::int) ^ 1023 * 2 = 2 ^ 1024" by (simp only: power_Suc2 [symmetric]) simp
  have n: "nearest (2 ^ 1024) = 2 ^ 1024" using nearest_power [of 971] by simp
  have a: "\<bar>2 ^ 1024\<bar> = (2::int) ^ 1024" by (rule abs_of_nonneg) (rule zero_le_power, simp)
  have p: "\<not> (2::int) ^ 1024 < 0" by (simp only: not_less) (rule zero_le_power, simp)
  show ?thesis
    by (simp only: times_two.simps e round64_def Let_def a n p order_refl if_True if_False)
qed

lemma backoff_overflow: "backoff (Num (2 ^ 1023)) 2 = [Num (2 ^ 1023), PosInf]"
  by (simp only: numeral_2_eq_2 backoff.simps double_overflows)


lemma budget_rounds: "minus_one (Num (2 ^ 53 + 2)) = Num (2 ^ 53)"
  by (simp add: round64_def nearest_def ulp.simps)

lemma budget_is_binary64: "round64 (2 ^ 53 + 2) = Num (2 ^ 53 + 2)"
  by (simp add: round64_def nearest_def ulp.simps)

lemma budget_stuck: "minus_one (Num (2 ^ 53 + 4)) = Num (2 ^ 53 + 4)"
  by (simp add: round64_def nearest_def ulp.simps)




text \<open>
  Claim C6 as the specification states it does not hold for every budget: with
  \<open>m = 2 ^ 53 + 2\<close>, a binary64 number, the first \<^verbatim>\<open>retries - 1\<close> is \<open>2 ^ 53\<close>, and
  \<^verbatim>\<open>retry\<close> fails after \<open>m\<close> invocations, not \<open>m + 1\<close>: the error is the one of
  invocation number \<open>2 ^ 53 + 1\<close>, counted from 0.
\<close>

theorem retry_exhausted_counterexample:
  "(0::int) \<le> 2 ^ 53 + 2 \<and> round64 (2 ^ 53 + 2) = Num (2 ^ 53 + 2)
   \<and> map_option (\<lambda>(r, s). (r, attempts s))
        (retry always_fails (Num (2 ^ 53 + 2)) (Num 0) \<lparr>world = 0, attempts = 0, waited = []\<rparr>)
      = Some (Inl (2 ^ 53 + 1), 2 ^ 53 + 2)"
proof -
  let ?st0 = "\<lparr>world = 0::nat, attempts = 0, waited = []\<rparr>"
  let ?st1 = "\<lparr>world = Suc 0, attempts = Suc 0, waited = [Num 0]\<rparr>"
  have w: "world_after always_fails n k = n + k" for n k
    by (rule world_after_counter) (simp add: always_fails_def)
  have out: "outcome always_fails n k = Inl (n + k)" for n k
    by (simp add: outcome_def w always_fails_def)
  have f0: "fst (always_fails (world ?st0)) = Inl 0" by (simp add: always_fails_def)
  have "retry always_fails (Num (2 ^ 53 + 2)) (Num 0) ?st0 =
      retry always_fails (minus_one (Num (2 ^ 53 + 2))) (times_two (Num 0)) ?st1"
    using retry_again [of always_fails ?st0 0 "Num (2 ^ 53 + 2)" "Num 0"] f0
    by (simp add: always_fails_def)
  also have "\<dots> = retry always_fails (Num (2 ^ 53)) (times_two (Num 0)) ?st1"
    by (simp only: budget_rounds)
  also have "\<dots> = Some (outcome always_fails (world ?st1) (nat (2 ^ 53)),
      ?st1\<lparr>world := world_after always_fails (world ?st1) (Suc (nat (2 ^ 53))),
           attempts := attempts ?st1 + Suc (nat (2 ^ 53)),
           waited := waited ?st1 @ backoff (times_two (Num 0)) (nat (2 ^ 53))\<rparr>)"
    by (rule retry_always_fails) (simp_all add: out)
  finally show ?thesis using budget_is_binary64 by (simp add: out)
qed

text \<open>
  Claim C6, amended. An operation that fails on every invocation, run with an integer
  budget \<open>0 \<le> m \<le> 2 ^ 53\<close> and any delay: \<^verbatim>\<open>retry\<close> fails after exactly \<open>m + 1\<close>
  invocations, and what it throws is the outcome of the last invocation (number \<open>m\<close>,
  counted from 0) as it is: the result type has no constructor that would mark a failure
  after retries. The delays waited are the \<open>m\<close> delays that line 126 computes.
\<close>

theorem retry_exhausted:
  "(\<forall>i. isl (outcome fn w i)) \<Longrightarrow> 0 \<le> m \<Longrightarrow> m \<le> 2 ^ 53 \<Longrightarrow>
   retry fn (Num m) delay \<lparr>world = w, attempts = 0, waited = []\<rparr> =
     Some (outcome fn w (nat m),
      \<lparr>world = world_after fn w (nat m + 1), attempts = nat m + 1, waited = backoff delay (nat m)\<rparr>)
   \<and> isl (outcome fn w (nat m))"
  using retry_always_fails [of m fn "\<lparr>world = w, attempts = 0, waited = []\<rparr>" delay]
  by simp

text \<open>With the budget 2 and the delay \<open>2 ^ 1023\<close>: three invocations, the error of the
  third, and the delays \<open>2 ^ 1023\<close> and \<^verbatim>\<open>Infinity\<close>.\<close>

theorem retry_exhausted_witness:
  "isl (outcome always_fails 0 0) \<and> isl (outcome always_fails 0 1) \<and> isl (outcome always_fails 0 2)
   \<and> (0::int) \<le> 2 \<and> (2::int) \<le> 2 ^ 53
   \<and> retry always_fails (Num 2) (Num (2 ^ 1023)) \<lparr>world = 0, attempts = 0, waited = []\<rparr> =
        Some (Inl 2, \<lparr>world = 3, attempts = 3, waited = [Num (2 ^ 1023), PosInf]\<rparr>)"
proof -
  have w: "world_after always_fails n k = n + k" for n k
    by (rule world_after_counter) (simp add: always_fails_def)
  have h1: "\<forall>i. isl (outcome always_fails 0 i)"
    by (simp add: outcome_def always_fails_def)
  have h2: "(0::int) \<le> 2" "(2::int) \<le> 2 ^ 53" by simp_all
  have b: "backoff (Num (2 ^ 1023)) (nat 2) = [Num (2 ^ 1023), PosInf]"
    using backoff_overflow by (simp del: power_numeral)
  have o: "outcome always_fails 0 (nat 2) = Inl 2" by (simp add: outcome_def w always_fails_def)
  show ?thesis
    using retry_exhausted [OF h1 h2, of "Num (2 ^ 1023)"] h1 h2 b o w [of 0 3]
    by (simp del: power_numeral)
qed

text \<open>
  Claim C7. An operation that succeeds on its first invocation: for every budget and every
  delay \<^verbatim>\<open>retry\<close> resolves with that value after one invocation, and
  \<^verbatim>\<open>setTimeout\<close> is never called.
\<close>

theorem retry_first_success:
  "outcome fn w 0 = Inr v \<Longrightarrow>
   retry fn maxRetries delay \<lparr>world = w, attempts = 0, waited = []\<rparr> =
     Some (Inr v, \<lparr>world = snd (fn w), attempts = 1, waited = []\<rparr>)"
  by (simp add: retry_success outcome_0)

theorem retry_first_success_witness:
  "outcome succeeds 0 0 = Inr ''payload''
   \<and> retry succeeds (Num 3) (Num 1000) \<lparr>world = 0, attempts = 0, waited = []\<rparr> =
        Some (Inr ''payload'', \<lparr>world = 1, attempts = 1, waited = []\<rparr>)"
proof -
  have h: "outcome succeeds 0 0 = Inr ''payload''" by (simp add: outcome_def succeeds_def)
  show ?thesis using retry_first_success [OF h, of "Num 3" "Num 1000"] h by (simp add: succeeds_def)
qed

text \<open>
  Claim C8. With \<open>retries = 0\<close> the operation is invoked exactly once and nothing is
  waited for: the result is the outcome of that invocation, value or error.
\<close>

theorem retry_zero_budget:
  "retry fn (Num 0) delay \<lparr>world = w, attempts = 0, waited = []\<rparr> =
     Some (fst (fn w), \<lparr>world = snd (fn w), attempts = 1, waited = []\<rparr>)"
  by (cases "fst (fn w)") (simp_all add: retry_success retry_give_up)

text \<open>
  Claim C10. A negative budget, \<^verbatim>\<open>-Infinity\<close> included, behaves exactly as the budget
  0: from any state, the operation is invoked once, its outcome is the result, and no
  delay is waited.
\<close>

theorem retry_negative_budget:
  "negative retries \<Longrightarrow>
   retry fn retries delay st = retry fn (Num 0) delay st
   \<and> retry fn retries delay st =
       Some (fst (fn (world st)), st\<lparr>world := snd (fn (world st)), attempts := Suc (attempts st)\<rparr>)"
proof -
  assume "negative retries"
  then have "le_zero retries" by (cases retries) simp_all
  then show ?thesis
    by (cases "fst (fn (world st))") (simp_all add: retry_success retry_give_up)
qed

theorem retry_negative_budget_witness:
  "negative (Num (- 1))
   \<and> retry always_fails (Num (- 1)) (Num 100) \<lparr>world = 5, attempts = 0, waited = []\<rparr> =
       retry always_fails (Num 0) (Num 100) \<lparr>world = 5, attempts = 0, waited = []\<rparr>
   \<and> retry always_fails (Num (- 1)) (Num 100) \<lparr>world = 5, attempts = 0, waited = []\<rparr> =
       Some (Inl 5, \<lparr>world = 6, attempts = 1, waited = []\<rparr>)"
proof -
  have h: "negative (Num (- 1))" by simp
  show ?thesis
    using retry_negative_budget [OF h, of always_fails "Num 100" "\<lparr>world = 5, attempts = 0, waited = []\<rparr>"]
    by (auto simp: always_fails_def)
qed

section \<open>Properties of parallel\<close>

subsection \<open>The bookkeeping is consistent\<close>

lemma start_task_fields [simp]:
  "index (start_task st) = Suc (index st)"
  "results (start_task st) = results st @ [None]"
  "executing (start_task st) = set_add (index st) (executing st)"
  "invoked (start_task st) = invoked st @ [index st]"
  "phase (start_task st) = phase st"
  "high_water (start_task st) = max (high_water st) (Suc (active st))"
  by (simp_all add: start_task_def Let_def active_def)

lemma promise_race_fields [simp]:
  "index (promise_race st) = index st"
  "results (promise_race st) = results st"
  "executing (promise_race st) = executing st"
  "invoked (promise_race st) = invoked st"
  "high_water (promise_race st) = high_water st"
  by (simp_all add: promise_race_def split: option.splits prod.splits)

lemma first_settled_Some:
  "first_settled rs ps = Some (p, r) \<Longrightarrow> p \<in> set ps \<and> promise_state rs p = Some r"
  by (induction ps) (auto split: option.splits)

lemma first_settled_None:
  "first_settled rs ps = None \<Longrightarrow> \<forall>p\<in>set ps. promise_state rs p = None"
  by (induction ps) (auto split: option.splits)

lemma phase_promise_race:
  "phase (promise_race st) = AwaitRace (executing st) \<and> (\<forall>p\<in>set (executing st). promise_state (results st) p = None)
   \<or> (\<exists>p r. phase (promise_race st) = Woken p r \<and> p \<in> set (executing st) \<and> promise_state (results st) p = Some r)"
  by (auto simp: promise_race_def split: option.splits prod.splits dest: first_settled_Some first_settled_None)

lemma well_formed_race [simp]: "well_formed tasks (promise_race st) = well_formed tasks st"
  by (simp add: well_formed_def)

lemma well_formed_phase [simp]: "well_formed tasks (st\<lparr>phase := ph\<rparr>) = well_formed tasks st"
  by (simp add: well_formed_def)

lemma well_formed_start:
  assumes "well_formed tasks st" "index st < length tasks"
  shows "well_formed tasks (start_task st)"
proof -
  have fresh: "index st \<notin> set (executing st)" using assms by (auto simp: well_formed_def)
  show ?thesis
    using assms fresh
    by (auto simp: well_formed_def set_add_def nth_append less_Suc_eq)
qed

lemma well_formed_loop:
  "well_formed tasks st \<Longrightarrow> well_formed tasks (loop tasks c st)"
proof (induction tasks c st rule: loop.induct)
  case (1 tasks c st)
  show ?case
  proof (cases "index st < length tasks")
    case True
    then have wf: "well_formed tasks (start_task st)" using "1.prems" by (rule well_formed_start [rotated])
    show ?thesis
    proof (cases "c \<le> int (length (executing (start_task st)))")
      case True
      then show ?thesis using \<open>index st < length tasks\<close> wf
        by (simp add: loop.simps [of tasks c st])
    next
      case False
      then show ?thesis using \<open>index st < length tasks\<close> "1.IH" [OF \<open>index st < length tasks\<close> refl False wf]
        by (simp add: loop.simps [of tasks c st])
    qed
  next
    case False
    then show ?thesis using "1.prems" by (simp add: loop.simps [of tasks c st])
  qed
qed

lemma well_formed_initial: "well_formed tasks initial"
  by (simp add: well_formed_def initial_def)

lemma well_formed_step:
  "well_formed tasks st \<Longrightarrow> well_formed tasks (step tasks c st ev)"
proof (cases ev)
  case (Settle p)
  assume wf: "well_formed tasks st"
  show ?thesis
  proof (cases "p < length tasks \<and> p < index st \<and> promise_state (results st) p = None")
    case True
    have "well_formed tasks (st\<lparr>results := (results st)[p := Some (tasks ! p)]\<rparr>)"
      using wf True by (auto simp: well_formed_def nth_list_update)
    then show ?thesis using Settle True
      by (auto simp: Let_def split: phase.splits sum.splits option.splits)
  next
    case False
    then show ?thesis using Settle wf by auto
  qed
next
  case (Cleanup p)
  assume wf: "well_formed tasks st"
  then show ?thesis using Cleanup
    by (auto simp: well_formed_def set_delete_def promise_state_def)
next
  case Resume
  assume wf: "well_formed tasks st"
  then show ?thesis using Resume
    by (auto split: phase.splits sum.splits intro: well_formed_loop)
qed

lemma well_formed_foldl:
  "well_formed tasks st \<Longrightarrow> well_formed tasks (foldl (step tasks c) st evs)"
  by (induction evs arbitrary: st) (simp_all add: well_formed_step)

lemma well_formed_parallel: "well_formed tasks (parallel tasks c evs)"
  unfolding parallel_def by (intro well_formed_foldl well_formed_loop well_formed_initial)

subsection \<open>The concurrency limit\<close>

lemma active_le_executing:
  assumes "well_formed tasks st"
  shows "active st \<le> length (executing st)"
proof -
  have "active st = card {p. p < length (results st) \<and> results st ! p = None}"
    by (simp add: active_def length_filter_conv_card)
  also have "\<dots> \<le> card (set (executing st))"
    using assms by (intro card_mono) (auto simp: well_formed_def)
  also have "\<dots> = length (executing st)"
    using assms by (simp add: well_formed_def distinct_card)
  finally show ?thesis .
qed

lemma bounded_loop:
  "well_formed tasks st \<Longrightarrow> int (length (executing st)) < c \<Longrightarrow> int (high_water st) \<le> c \<Longrightarrow>
   bounded c (loop tasks c st)"
proof (induction tasks c st rule: loop.induct)
  case (1 tasks c st)
  show ?case
  proof (cases "index st < length tasks")
    case True
    let ?st = "start_task st"
    have wf: "well_formed tasks ?st" using "1.prems"(1) True by (rule well_formed_start)
    have fresh: "index st \<notin> set (executing st)" using "1.prems"(1) by (auto simp: well_formed_def)
    then have len: "length (executing ?st) = Suc (length (executing st))" by (simp add: set_add_def)
    have act: "Suc (active st) \<le> Suc (length (executing st))"
      using active_le_executing [OF "1.prems"(1)] by simp
    have hw: "int (high_water ?st) \<le> c" using "1.prems"(2,3) act by simp
    have ex: "int (length (executing ?st)) \<le> c" using "1.prems"(2) len by simp
    show ?thesis
    proof (cases "c \<le> int (length (executing ?st))")
      case True
      have "bounded c (promise_race ?st)"
        using phase_promise_race [of ?st] hw ex by (auto simp: bounded_def)
      then show ?thesis using \<open>index st < length tasks\<close> True
        by (simp add: loop.simps [of tasks c st])
    next
      case False
      then have "int (length (executing ?st)) < c" by simp
      from "1.IH" [OF True refl False wf this hw] show ?thesis using True False
        by (simp add: loop.simps [of tasks c st])
    qed
  next
    case False
    then show ?thesis using "1.prems"
      by (simp add: loop.simps [of tasks c st] bounded_def promise_all_def split: option.splits)
  qed
qed

lemma bounded_step:
  assumes wf: "well_formed tasks st" and b: "bounded c st"
  shows "bounded c (step tasks c st ev)"
proof (cases ev)
  case (Settle p)
  show ?thesis
  proof (cases "p < length tasks \<and> p < index st \<and> promise_state (results st) p = None")
    case True
    then have "p \<in> set (executing st)" using wf by (auto simp: well_formed_def promise_state_def)
    then show ?thesis using Settle True b
      by (auto simp: Let_def bounded_def split: phase.splits sum.splits option.splits)
  next
    case False
    then show ?thesis using Settle b by auto
  qed
next
  case (Cleanup p)
  show ?thesis
  proof (cases "p \<in> set (executing st) \<and> promise_state (results st) p \<noteq> None")
    case True
    have d: "distinct (executing st)" using wf by (simp add: well_formed_def)
    have "length (set_delete p (executing st)) < length (executing st)"
      using True unfolding set_delete_def by (intro length_filter_less [of p]) auto
    then show ?thesis using Cleanup True b
      by (auto simp: bounded_def set_delete_def split: phase.splits)
  next
    case False
    then show ?thesis using Cleanup b by auto
  qed
next
  case Resume
  show ?thesis
  proof (cases "phase st")
    case (Woken p r)
    show ?thesis
    proof (cases "p \<in> set (executing st)")
      case True
      then show ?thesis using Resume Woken b by simp
    next
      case False
      then have lt: "int (length (executing st)) < c" using b Woken by (simp add: bounded_def)
      show ?thesis
      proof (cases r)
        case (Inl e)
        then show ?thesis using Resume Woken False b by (simp add: bounded_def)
      next
        case (Inr v)
        have "bounded c (loop tasks c (st\<lparr>phase := Running\<rparr>))"
          using wf lt b by (intro bounded_loop) (simp_all add: bounded_def)
        then show ?thesis using Resume Woken False Inr by simp
      qed
    qed
  qed (use Resume b in simp_all)
qed

lemma bounded_foldl:
  "well_formed tasks st \<Longrightarrow> bounded c st \<Longrightarrow> bounded c (foldl (step tasks c) st evs)"
  by (induction evs arbitrary: st) (simp_all add: well_formed_step bounded_step)

lemma bounded_parallel: "1 \<le> c \<Longrightarrow> bounded c (parallel tasks c evs)"
  unfolding parallel_def
  by (intro bounded_foldl bounded_loop well_formed_loop well_formed_initial) (simp_all add: initial_def)

lemma active_le_high_water_loop:
  "active st \<le> high_water st \<Longrightarrow> active (loop tasks c st) \<le> high_water (loop tasks c st)"
proof (induction tasks c st rule: loop.induct)
  case (1 tasks c st)
  have s: "active (start_task st) \<le> high_water (start_task st)" by (simp add: active_def)
  have r: "active (promise_race (start_task st)) = active (start_task st)" by (simp add: active_def)
  show ?case
  proof (cases "index st < length tasks")
    case True
    show ?thesis
    proof (cases "c \<le> int (length (executing (start_task st)))")
      case True
      then show ?thesis using \<open>index st < length tasks\<close> s r
        by (simp add: loop.simps [of tasks c st])
    next
      case False
      from "1.IH" [OF True refl False s] show ?thesis using True False
        by (simp add: loop.simps [of tasks c st])
    qed
  next
    case False
    then show ?thesis using "1.prems" by (simp add: loop.simps [of tasks c st] active_def)
  qed
qed

lemma active_update_le:
  "length (filter (\<lambda>r. r = None) (rs[p := Some r])) \<le> length (filter (\<lambda>r. r = None) rs)"
proof (induction rs arbitrary: p)
  case Nil
  then show ?case by simp
next
  case (Cons a rs)
  then show ?case by (cases p) (auto simp: le_SucI)
qed


lemma active_le_high_water_step:
  "active st \<le> high_water st \<Longrightarrow> active (step tasks c st ev) \<le> high_water (step tasks c st ev)"
proof (cases ev)
  case (Settle p)
  assume a: "active st \<le> high_water st"
  have "active (st\<lparr>results := (results st)[p := Some (tasks ! p)]\<rparr>) \<le> active st"
    by (simp add: active_def active_update_le)
  then show ?thesis using Settle a
    by (auto simp: Let_def active_def split: phase.splits sum.splits option.splits)
next
  case (Cleanup p)
  assume "active st \<le> high_water st"
  then show ?thesis using Cleanup by (auto simp: active_def)
next
  case Resume
  assume a: "active st \<le> high_water st"
  have "active (loop tasks c (st\<lparr>phase := Running\<rparr>)) \<le> high_water (loop tasks c (st\<lparr>phase := Running\<rparr>))"
    using a by (intro active_le_high_water_loop) (simp add: active_def)
  then show ?thesis using Resume a
    by (auto simp: active_def split: phase.splits sum.splits)
qed

lemma active_le_high_water_foldl:
  "active st \<le> high_water st \<Longrightarrow>
   active (foldl (step tasks c) st evs) \<le> high_water (foldl (step tasks c) st evs)"
  by (induction evs arbitrary: st) (simp_all add: active_le_high_water_step)

lemma active_le_high_water_parallel:
  "active (parallel tasks c evs) \<le> high_water (parallel tasks c evs)"
  unfolding parallel_def
  by (intro active_le_high_water_foldl active_le_high_water_loop) (simp add: initial_def active_def)

text \<open>
  Claim C1. For every batch, every limit \<open>concurrency \<ge> 1\<close> and every order of events,
  the number of active invocations never exceeds the limit: it is at most the high-water
  mark at every suspension point, and the high-water mark, taken each time a task is
  started, is at most \<open>concurrency\<close>. The bound \<open>concurrency \<le> S\<close> of the claim is not
  needed.
\<close>

theorem parallel_concurrency_bound:
  "1 \<le> concurrency \<Longrightarrow>
   int (active (parallel tasks concurrency schedule)) \<le> int (high_water (parallel tasks concurrency schedule))
   \<and> int (high_water (parallel tasks concurrency schedule)) \<le> concurrency"
  using bounded_parallel [of concurrency tasks schedule]
    active_le_high_water_parallel [of tasks concurrency schedule]
  by (simp add: bounded_def)

text \<open>Evaluation of concrete runs.\<close>

lemmas run_simps = parallel_def loop.simps step.simps start_task_def promise_race_def promise_all_def
  promise_state_def set_add_def set_delete_def active_def initial_def Let_def

text \<open>The scenario of the specification: three operations, limit 2; operation 1 finishes
  first, then operation 2, then operation 0. Two invocations are active at the peak.\<close>

theorem parallel_concurrency_bound_witness:
  "(1::int) \<le> 2
   \<and> int (high_water (parallel [Inr ''a'', Inr ''b'', Inr ''c'' :: string + string] 2
         [Settle 1, Cleanup 1, Resume, Settle 2, Cleanup 2, Resume, Settle 0])) \<le> 2
   \<and> high_water (parallel [Inr ''a'', Inr ''b'', Inr ''c'' :: string + string] 2
         [Settle 1, Cleanup 1, Resume, Settle 2, Cleanup 2, Resume, Settle 0]) = 2"
proof -
  have h: "(1::int) \<le> 2" by simp
  have e: "high_water (parallel [Inr ''a'', Inr ''b'', Inr ''c'' :: string + string] 2
         [Settle 1, Cleanup 1, Resume, Settle 2, Cleanup 2, Resume, Settle 0]) = 2"
    by (simp add: run_simps)
  from parallel_concurrency_bound [OF h] have
    "int (high_water (parallel [Inr ''a'', Inr ''b'', Inr ''c'' :: string + string] 2
         [Settle 1, Cleanup 1, Resume, Settle 2, Cleanup 2, Resume, Settle 0])) \<le> 2"
    by blast
  with h e show ?thesis by blast
qed

subsection \<open>What the phases know\<close>

lemma first_rejection_mem: "first_rejection rs = Some e \<Longrightarrow> Some (Inl e) \<in> set rs"
  by (induction rs rule: first_rejection.induct) auto

lemma first_rejection_Some:
  "first_rejection rs = Some e \<Longrightarrow> \<exists>p<length rs. rs ! p = Some (Inl e)"
  by (drule first_rejection_mem) (simp add: in_set_conv_nth)

lemma all_values_Some:
  "all_values rs = Some vs \<Longrightarrow> rs = map (\<lambda>v. Some (Inr v)) vs"
  by (induction rs arbitrary: vs rule: all_values.induct) auto

lemma all_values_map [simp]: "all_values (map (\<lambda>v. Some (Inr v)) vs) = Some vs"
  by (induction vs) auto

lemma first_rejection_None_iff:
  "first_rejection rs = None \<longleftrightarrow> (\<forall>e. Some (Inl e) \<notin> set rs)"
  by (induction rs rule: first_rejection.induct) auto

lemma all_values_None_iff:
  "all_values rs = None \<longleftrightarrow> (None \<in> set rs \<or> (\<exists>e. Some (Inl e) \<in> set rs))"
  by (induction rs rule: all_values.induct) auto

lemma phase_ok_promise_all:
  assumes "well_formed tasks st" "\<not> index st < length tasks"
  shows "phase_ok tasks (st\<lparr>phase := promise_all (results st)\<rparr>)"
proof -
  have i: "index st = length tasks" "length (results st) = index st"
    using assms by (auto simp: well_formed_def)
  show ?thesis
    using i first_rejection_Some [of "results st"] all_values_Some [of "results st"]
    by (auto simp: phase_ok_def promise_all_def split: option.splits)
qed

lemma phase_ok_race:
  assumes "well_formed tasks st" "executing st \<noteq> []"
  shows "phase_ok tasks (promise_race st)"
proof -
  have "p \<in> set (executing st) \<Longrightarrow> p < length (results st)" for p
    using assms by (auto simp: well_formed_def)
  then show ?thesis
    using phase_promise_race [of st] assms
    by (auto simp: phase_ok_def promise_state_def well_formed_def split: if_splits)
qed

lemma phase_ok_loop:
  "well_formed tasks st \<Longrightarrow> phase_ok tasks (loop tasks c st)"
proof (induction tasks c st rule: loop.induct)
  case (1 tasks c st)
  show ?case
  proof (cases "index st < length tasks")
    case True
    let ?st = "start_task st"
    have wf: "well_formed tasks ?st" using "1.prems"(1) True by (rule well_formed_start)
    have ne: "executing ?st \<noteq> []" by (auto simp: set_add_def)
    show ?thesis
    proof (cases "c \<le> int (length (executing ?st))")
      case True
      then show ?thesis using \<open>index st < length tasks\<close> phase_ok_race [OF wf ne]
        by (simp add: loop.simps [of tasks c st])
    next
      case False
      from "1.IH" [OF True refl False wf] show ?thesis using True False
        by (simp add: loop.simps [of tasks c st])
    qed
  next
    case False
    then show ?thesis using phase_ok_promise_all [OF "1.prems" False]
      by (simp add: loop.simps [of tasks c st])
  qed
qed

lemma first_rejection_update_Inr:
  "first_rejection rs = None \<Longrightarrow> first_rejection (rs[p := Some (Inr v)]) = None"
  by (auto simp: first_rejection_None_iff dest!: set_update_subset_insert [THEN subsetD])

lemma phase_ok_settle:
  assumes wf: "well_formed tasks st" and ok: "phase_ok tasks st"
    and en: "p < length tasks" "p < index st" "promise_state (results st) p = None"
  shows "phase_ok tasks (step tasks c st (Settle p))"
proof -
  let ?r = "tasks ! p"
  let ?st = "st\<lparr>results := (results st)[p := Some ?r]\<rparr>"
  have len: "length (results st) = index st" using wf by (simp add: well_formed_def)
  have pend: "results st ! p = None" using en len by (simp add: promise_state_def)
  have mem: "p \<in> set (executing st)" using wf en pend by (auto simp: well_formed_def)
  have other: "q \<noteq> p" if "results st ! q = Some r" for q r using that pend by auto
  show ?thesis
  proof (cases "phase st")
    case Running
    then show ?thesis using ok by (simp add: phase_ok_def)
  next
    case (AwaitRace ms)
    then have "ms = executing st" using ok by (simp add: phase_ok_def)
    then show ?thesis using AwaitRace en mem len
      by (simp add: phase_ok_def Let_def)
  next
    case (Woken q r)
    then have "q < index st" "results st ! q = Some r" using ok by (simp_all add: phase_ok_def)
    then show ?thesis using Woken en other [of q r]
      by (simp add: phase_ok_def Let_def)
  next
    case AwaitAll
    then have a: "index st = length tasks" "first_rejection (results st) = None"
      using ok by (simp_all add: phase_ok_def)
    show ?thesis
    proof (cases ?r)
      case (Inl e)
      then show ?thesis using AwaitAll en len
        by (auto simp: phase_ok_def Let_def intro!: exI [of _ p])
    next
      case (Inr v)
      then show ?thesis using AwaitAll en a first_rejection_update_Inr [OF a(2), of p v]
        by (auto simp: phase_ok_def Let_def split: option.splits dest: all_values_Some)
    qed
  next
    case (Resolved vs)
    then have "results st = map (\<lambda>v. Some (Inr v)) vs" using ok by (simp add: phase_ok_def)
    then have False using pend en len by (metis length_map nth_map option.distinct(1))
    then show ?thesis ..
  next
    case (Rejected e)
    then obtain q where "q < index st" "results st ! q = Some (Inl e)" using ok by (auto simp: phase_ok_def)
    then show ?thesis using Rejected en other [of q "Inl e"]
      by (auto simp: phase_ok_def Let_def intro!: exI [of _ q])
  qed
qed

lemma phase_ok_step:
  assumes wf: "well_formed tasks st" and ok: "phase_ok tasks st"
  shows "phase_ok tasks (step tasks c st ev)"
proof (cases ev)
  case (Settle p)
  show ?thesis
  proof (cases "p < length tasks \<and> p < index st \<and> promise_state (results st) p = None")
    case True
    then show ?thesis using phase_ok_settle [OF wf ok, of p c] Settle by blast
  next
    case False
    then show ?thesis using Settle ok by auto
  qed
next
  case (Cleanup p)
  show ?thesis
  proof (cases "p \<in> set (executing st) \<and> promise_state (results st) p \<noteq> None")
    case True
    then have "p < length (results st)" "results st ! p \<noteq> None"
      by (auto simp: promise_state_def split: if_splits)
    then show ?thesis using Cleanup True ok
      by (auto simp: phase_ok_def split: phase.splits)
  next
    case False
    then show ?thesis using Cleanup ok by auto
  qed
next
  case Resume
  show ?thesis
  proof (cases "phase st")
    case (Woken p r)
    have l: "phase_ok tasks (loop tasks c (st\<lparr>phase := Running\<rparr>))"
      using wf by (intro phase_ok_loop) simp
    show ?thesis using Resume Woken ok l
      by (auto simp: phase_ok_def split: sum.splits)
  qed (use Resume ok in simp_all)
qed

lemma phase_ok_foldl:
  "well_formed tasks st \<Longrightarrow> phase_ok tasks st \<Longrightarrow> phase_ok tasks (foldl (step tasks c) st evs)"
  by (induction evs arbitrary: st) (simp_all add: well_formed_step phase_ok_step)

lemma phase_ok_parallel: "phase_ok tasks (parallel tasks c evs)"
  unfolding parallel_def
  by (intro phase_ok_foldl phase_ok_loop well_formed_loop well_formed_initial)

lemma resolved_values:
  assumes "well_formed tasks st" "phase_ok tasks st" "phase st = Resolved vs"
  shows "tasks = map Inr vs"
proof -
  have r: "index st = length tasks" "results st = map (\<lambda>v. Some (Inr v)) vs"
    using assms(2,3) by (simp_all add: phase_ok_def)
  have len: "length vs = length tasks" using assms(1) r by (auto simp: well_formed_def)
  have "tasks ! p = Inr (vs ! p)" if "p < length tasks" for p
  proof -
    have "results st ! p = None \<or> results st ! p = Some (tasks ! p)"
      using assms(1) that r(1) by (simp add: well_formed_def)
    then show ?thesis using r(2) that len by simp
  qed
  then show ?thesis using len by (intro nth_equalityI) simp_all
qed


subsection \<open>The empty batch and a limit below one\<close>

lemma loop_empty: "loop [] c initial = initial\<lparr>phase := Resolved []\<rparr>"
  by (subst loop.simps) (simp add: promise_all_def initial_def)

lemma step_empty: "step [] c (initial\<lparr>phase := Resolved []\<rparr>) ev = initial\<lparr>phase := Resolved []\<rparr>"
  by (cases ev) (simp_all add: initial_def)

lemma foldl_fixed: "(\<And>ev. f st ev = st) \<Longrightarrow> foldl f st evs = st"
  by (induction evs) simp_all

text \<open>
  Claim C9. For every limit, valid or not, \<^verbatim>\<open>parallel\<close> on the empty batch has resolved
  with the empty result when the call returns, before any job of the event loop, and
  stays so; no operation is invoked.
\<close>

theorem parallel_empty_batch:
  "parallel [] concurrency [] =
     \<lparr>index = 0, results = [], executing = [], phase = Resolved [], invoked = [], high_water = 0\<rparr>
   \<and> parallel [] concurrency schedule = parallel [] concurrency []"
proof -
  have "foldl (step [] concurrency) (initial\<lparr>phase := Resolved []\<rparr>) evs = initial\<lparr>phase := Resolved []\<rparr>"
    for evs :: "event list"
    by (rule foldl_fixed) (rule step_empty)
  then show ?thesis by (simp add: parallel_def loop_empty) (simp add: initial_def)
qed

lemma loop_nonpositive:
  "c \<le> 1 \<Longrightarrow> loop tasks c st = loop tasks 1 st"
proof -
  assume c: "c \<le> 1"
  have "length (executing (start_task st)) \<noteq> 0" by (auto simp: set_add_def)
  then have "c \<le> int (length (executing (start_task st)))" "1 \<le> int (length (executing (start_task st)))"
    using c by linarith+
  then show ?thesis
    by (simp add: loop.simps [of tasks c st] loop.simps [of tasks 1 st])
qed

lemma step_nonpositive: "c \<le> 1 \<Longrightarrow> step tasks c st ev = step tasks 1 st ev"
  by (cases ev) (simp_all add: loop_nonpositive [of c] split: phase.splits sum.splits)

lemma foldl_step_nonpositive:
  "c \<le> 1 \<Longrightarrow> foldl (step tasks c) st evs = foldl (step tasks 1) st evs"
  by (induction evs arbitrary: st) (simp_all add: step_nonpositive [of c])

lemma index_loop_mono: "index st \<le> index (loop tasks c st)"
proof (induction tasks c st rule: loop.induct)
  case (1 tasks c st)
  show ?case
  proof (cases "index st < length tasks")
    case True
    show ?thesis
    proof (cases "c \<le> int (length (executing (start_task st)))")
      case True
      then show ?thesis using \<open>index st < length tasks\<close> by (simp add: loop.simps [of tasks c st])
    next
      case False
      from "1.IH" [OF True refl False] show ?thesis using True False
        by (simp add: loop.simps [of tasks c st])
    qed
  next
    case False
    then show ?thesis by (simp add: loop.simps [of tasks c st])
  qed
qed

lemma index_step_mono: "index st \<le> index (step tasks c st ev)"
  using index_loop_mono [of "st\<lparr>phase := Running\<rparr>" tasks c]
  by (cases ev) (auto simp: Let_def split: phase.splits sum.splits option.splits)

lemma index_foldl_mono: "index st \<le> index (foldl (step tasks c) st evs)"
proof (induction evs arbitrary: st)
  case Nil
  then show ?case by simp
next
  case (Cons ev evs)
  have "index st \<le> index (step tasks c st ev)" by (rule index_step_mono)
  also have "\<dots> \<le> index (foldl (step tasks c) (step tasks c st ev) evs)" by (rule Cons.IH)
  finally show ?case by simp
qed

lemma index_loop_started: "index st < length tasks \<Longrightarrow> Suc (index st) \<le> index (loop tasks c st)"
proof -
  assume lt: "index st < length tasks"
  show ?thesis
  proof (cases "c \<le> int (length (executing (start_task st)))")
    case True
    then show ?thesis using lt by (simp add: loop.simps [of tasks c st])
  next
    case False
    have "index (start_task st) \<le> index (loop tasks c (start_task st))" by (rule index_loop_mono)
    then show ?thesis using lt False by (simp add: loop.simps [of tasks c st])
  qed
qed

lemma first_started: "tasks \<noteq> [] \<Longrightarrow> 1 \<le> index (parallel tasks c evs)"
proof -
  assume ne: "tasks \<noteq> []"
  have "1 \<le> index (loop tasks c initial)"
    using index_loop_started [of initial tasks c] ne by (simp add: initial_def)
  also have "\<dots> \<le> index (parallel tasks c evs)" unfolding parallel_def by (rule index_foldl_mono)
  finally show ?thesis .
qed

text \<open>
  Claim C3 as the specification states it does not hold: with the limit 0 the first
  operation is invoked by the call itself, the batch runs to its end one operation at a
  time and resolves; the same with the limit -3. The function has no check of its
  \<open>concurrency\<close> argument.
\<close>

theorem parallel_zero_concurrency_counterexample:
  "(0::int) \<le> 0
   \<and> invoked (parallel [Inr ''a'', Inr ''b'' :: string + string] 0 []) = [0]
   \<and> phase (parallel [Inr ''a'', Inr ''b'' :: string + string] 0
        [Settle 0, Cleanup 0, Resume, Settle 1, Cleanup 1, Resume]) = Resolved [''a'', ''b'']
   \<and> invoked (parallel [Inr ''a'', Inr ''b'' :: string + string] (- 3)
        [Settle 0, Cleanup 0, Resume, Settle 1, Cleanup 1, Resume]) = [0, 1]"
  by (simp add: run_simps)

text \<open>
  Claim C3, amended. With a limit \<open>concurrency \<le> 0\<close> \<^verbatim>\<open>parallel\<close> raises no
  configuration error: the test \<^verbatim>\<open>executing.size >= concurrency\<close> holds after every
  \<^verbatim>\<open>add\<close>, so the run is the run with the limit 1. A rejection is the error of one of
  the operations, and the first operation of a batch that is not empty is always invoked.
\<close>

theorem parallel_nonpositive_concurrency:
  "concurrency \<le> 0 \<Longrightarrow>
   parallel tasks concurrency schedule = parallel tasks 1 schedule
   \<and> (\<forall>e. phase (parallel tasks concurrency schedule) = Rejected e \<longrightarrow> (\<exists>p<length tasks. tasks ! p = Inl e))
   \<and> (tasks \<noteq> [] \<longrightarrow> hd (invoked (parallel tasks concurrency schedule)) = 0
         \<and> invoked (parallel tasks concurrency schedule) \<noteq> [])"
proof -
  assume c: "concurrency \<le> 0"
  let ?st = "parallel tasks concurrency schedule"
  have wf: "well_formed tasks ?st" by (rule well_formed_parallel)
  have ok: "phase_ok tasks ?st" by (rule phase_ok_parallel)
  have 1: "?st = parallel tasks 1 schedule"
    using c by (simp add: parallel_def loop_nonpositive [of concurrency] foldl_step_nonpositive [of concurrency])
  have 2: "\<exists>p<length tasks. tasks ! p = Inl e" if "phase ?st = Rejected e" for e
  proof -
    from ok that obtain p where p: "p < index ?st" "results ?st ! p = Some (Inl e)"
      by (auto simp: phase_ok_def)
    then have "results ?st ! p = Some (tasks ! p)" "p < length tasks"
      using wf by (auto simp: well_formed_def)
    then show ?thesis using p by auto
  qed
  have 3: "hd (invoked ?st) = 0 \<and> invoked ?st \<noteq> []" if "tasks \<noteq> []"
  proof -
    have "1 \<le> index ?st" using that by (rule first_started)
    moreover have "invoked ?st = [0..<index ?st]" using wf by (simp add: well_formed_def)
    ultimately show ?thesis by (auto simp: upt_conv_Cons)
  qed
  show ?thesis using 1 2 3 by blast
qed

text \<open>With the limit 0 and a first operation that fails: the run is the run with the
  limit 1, the first operation is invoked, and the rejection carries its error.\<close>

theorem parallel_nonpositive_concurrency_witness:
  "(0::int) \<le> 0 \<and> [Inl ''boom'', Inr ''b'' :: string + string] \<noteq> []
   \<and> phase (parallel [Inl ''boom'', Inr ''b'' :: string + string] 0 [Settle 0, Cleanup 0, Resume])
       = Rejected ''boom''
   \<and> parallel [Inl ''boom'', Inr ''b'' :: string + string] 0 [Settle 0, Cleanup 0, Resume] =
       parallel [Inl ''boom'', Inr ''b''] 1 [Settle 0, Cleanup 0, Resume]
   \<and> (\<exists>p<length [Inl ''boom'', Inr ''b'' :: string + string].
         [Inl ''boom'', Inr ''b'' :: string + string] ! p = Inl ''boom'')
   \<and> hd (invoked (parallel [Inl ''boom'', Inr ''b'' :: string + string] 0 [Settle 0, Cleanup 0, Resume])) = 0"
proof -
  let ?tasks = "[Inl ''boom'', Inr ''b'' :: string + string]"
  have h: "(0::int) \<le> 0" by simp
  have ne: "?tasks \<noteq> []" by simp
  have r: "phase (parallel ?tasks 0 [Settle 0, Cleanup 0, Resume]) = Rejected ''boom''"
    by (simp add: run_simps)
  from parallel_nonpositive_concurrency [OF h, of ?tasks "[Settle 0, Cleanup 0, Resume]"] h ne r
  show ?thesis by blast
qed

lemma rejected_step:
  "phase st = Rejected e \<Longrightarrow>
   phase (step tasks c st ev) = Rejected e \<and> invoked (step tasks c st ev) = invoked st
   \<and> index (step tasks c st ev) = index st"
  by (cases ev) (simp_all add: Let_def)

lemma rejected_foldl:
  "phase st = Rejected e \<Longrightarrow>
   phase (foldl (step tasks c) st evs) = Rejected e \<and> invoked (foldl (step tasks c) st evs) = invoked st
   \<and> index (foldl (step tasks c) st evs) = index st"
proof (induction evs arbitrary: st)
  case Nil
  then show ?case by simp
next
  case (Cons ev evs)
  from rejected_step [OF Cons.prems, of tasks c ev] Cons.IH [of "step tasks c st ev"]
  show ?case by simp
qed

lemma parallel_append:
  "parallel tasks c (evs @ evs') = foldl (step tasks c) (parallel tasks c evs) evs'"
  by (simp add: parallel_def)


subsection \<open>Results and failures\<close>

lemma no_pending_iff: "filter (\<lambda>r. r = None) rs = [] \<longleftrightarrow> None \<notin> set rs"
  by (induction rs) auto

lemma active_0_iff: "active st = 0 \<longleftrightarrow> None \<notin> set (results st)"
  by (simp add: active_def no_pending_iff)

lemma quiet_settled:
  assumes wf: "well_formed tasks st" and ok: "phase_ok tasks st"
    and quiet: "active st = 0" and nw: "\<forall>p r. phase st \<noteq> Woken p r"
  shows "(\<exists>vs. phase st = Resolved vs) \<or> (\<exists>e. phase st = Rejected e)"
proof (cases "phase st")
  case Running
  then show ?thesis using ok by (simp add: phase_ok_def)
next
  case (AwaitRace ms)
  then have ms: "ms = executing st" "ms \<noteq> []" "\<forall>p\<in>set ms. results st ! p = None"
    using ok by (auto simp: phase_ok_def)
  then have "executing st \<noteq> []" by simp
  then obtain p where p: "p \<in> set (executing st)" by (cases "executing st") auto
  then have "p < length (results st)" "results st ! p = None"
    using wf ms by (auto simp: well_formed_def)
  then have "None \<in> set (results st)" by (metis nth_mem)
  then show ?thesis using quiet by (simp add: active_0_iff)
next
  case (Woken p r)
  then show ?thesis using nw by simp
next
  case AwaitAll
  then have "first_rejection (results st) = None" "all_values (results st) = None"
    using ok by (simp_all add: phase_ok_def)
  then have "None \<in> set (results st)"
    by (auto simp: first_rejection_None_iff all_values_None_iff)
  then show ?thesis using quiet by (simp add: active_0_iff)
qed simp_all

lemma rejected_error:
  assumes wf: "well_formed tasks st" and ok: "phase_ok tasks st" and rej: "phase st = Rejected e"
  shows "\<exists>p<index st. p < length tasks \<and> tasks ! p = Inl e"
proof -
  from ok rej obtain p where p: "p < index st" "results st ! p = Some (Inl e)"
    by (auto simp: phase_ok_def)
  then have "results st ! p = Some (tasks ! p)" "p < length tasks"
    using wf by (auto simp: well_formed_def)
  then show ?thesis using p by auto
qed

text \<open>
  Claim C4 as the specification states it does not hold for a batch with an operation
  that fails: of three operations under the limit 2 the second fails first; the call
  rejects with that error, so there is no result sequence, and the third operation is
  never invoked.
\<close>

theorem parallel_rejects_counterexample:
  "(1::int) \<le> 2 \<and> (2::int) \<le> int (length [Inr ''a'', Inl ''boom'', Inr ''c'' :: string + string])
   \<and> phase (parallel [Inr ''a'', Inl ''boom'', Inr ''c'' :: string + string] 2
        [Settle 1, Cleanup 1, Resume, Settle 0, Cleanup 0, Resume]) = Rejected ''boom''
   \<and> invoked (parallel [Inr ''a'', Inl ''boom'', Inr ''c'' :: string + string] 2
        [Settle 1, Cleanup 1, Resume, Settle 0, Cleanup 0, Resume]) = [0, 1]"
  by (simp add: run_simps)

text \<open>
  Claim C4, amended. Whenever \<^verbatim>\<open>parallel\<close> resolves, for any limit and any order of
  events, its result has exactly the length of the batch, position \<open>i\<close> holds the value of
  operation \<open>i\<close>, and every operation was invoked exactly once, in input order. When every
  operation succeeds, \<^verbatim>\<open>parallel\<close> has resolved with all the values as soon as every
  started promise has settled and no continuation of the function is pending.
\<close>

theorem parallel_result_order:
  "(phase (parallel tasks concurrency schedule) = Resolved vs \<longrightarrow>
      length vs = length tasks
      \<and> (\<forall>i<length tasks. tasks ! i = Inr (vs ! i))
      \<and> invoked (parallel tasks concurrency schedule) = [0..<length tasks])
   \<and> ((\<forall>i<length tasks. \<not> isl (tasks ! i))
        \<and> active (parallel tasks concurrency schedule) = 0
        \<and> (\<forall>p r. phase (parallel tasks concurrency schedule) \<noteq> Woken p r) \<longrightarrow>
      phase (parallel tasks concurrency schedule) = Resolved (map projr tasks))"
proof -
  let ?st = "parallel tasks concurrency schedule"
  have wf: "well_formed tasks ?st" by (rule well_formed_parallel)
  have ok: "phase_ok tasks ?st" by (rule phase_ok_parallel)
  have 1: "length vs = length tasks \<and> (\<forall>i<length tasks. tasks ! i = Inr (vs ! i))
      \<and> invoked ?st = [0..<length tasks]" if r: "phase ?st = Resolved vs" for vs
  proof -
    have t: "tasks = map Inr vs" by (rule resolved_values [OF wf ok r])
    have i: "index ?st = length tasks" using ok r by (simp add: phase_ok_def)
    have "invoked ?st = [0..<length tasks]" using wf i by (simp add: well_formed_def)
    moreover have "length vs = length tasks" using t by simp
    moreover have "\<forall>i<length tasks. tasks ! i = Inr (vs ! i)" using t by (metis length_map nth_map)
    ultimately show ?thesis by simp
  qed
  have 2: "phase ?st = Resolved (map projr tasks)"
    if s: "\<forall>i<length tasks. \<not> isl (tasks ! i)" and q: "active ?st = 0" and nw: "\<forall>p r. phase ?st \<noteq> Woken p r"
  proof -
    from quiet_settled [OF wf ok q nw] show ?thesis
    proof (elim disjE exE)
      fix ws assume r: "phase ?st = Resolved ws"
      have "tasks = map Inr ws" by (rule resolved_values [OF wf ok r])
      then have "map projr tasks = ws" by (simp add: comp_def)
      then show ?thesis using r by simp
    next
      fix e assume "phase ?st = Rejected e"
      from rejected_error [OF wf ok this] s show ?thesis by auto
    qed
  qed
  show ?thesis using 1 2 by blast
qed

theorem parallel_result_order_witness:
  "phase (parallel [Inr ''a'', Inr ''b'', Inr ''c'' :: string + string] 2
         [Settle 1, Cleanup 1, Resume, Settle 2, Cleanup 2, Resume, Settle 0]) = Resolved [''a'', ''b'', ''c'']
   \<and> active (parallel [Inr ''a'', Inr ''b'', Inr ''c'' :: string + string] 2
         [Settle 1, Cleanup 1, Resume, Settle 2, Cleanup 2, Resume, Settle 0]) = 0
   \<and> invoked (parallel [Inr ''a'', Inr ''b'', Inr ''c'' :: string + string] 2
         [Settle 1, Cleanup 1, Resume, Settle 2, Cleanup 2, Resume, Settle 0]) = [0, 1, 2]"
proof -
  let ?tasks = "[Inr ''a'', Inr ''b'', Inr ''c'' :: string + string]"
  let ?sched = "[Settle 1, Cleanup 1, Resume, Settle 2, Cleanup 2, Resume, Settle 0]"
  have s: "\<forall>i<length ?tasks. \<not> isl (?tasks ! i)"
    by (simp add: All_less_Suc numeral_3_eq_3)
  have q: "active (parallel ?tasks 2 ?sched) = 0" by (simp add: run_simps)
  have nw: "\<forall>p r. phase (parallel ?tasks 2 ?sched) \<noteq> Woken p r" by (simp add: run_simps)
  from parallel_result_order [of ?tasks 2 ?sched] s q nw
  have r: "phase (parallel ?tasks 2 ?sched) = Resolved (map projr ?tasks)" by blast
  from parallel_result_order [of ?tasks 2 ?sched "map projr ?tasks"] r
  have i: "invoked (parallel ?tasks 2 ?sched) = [0..<length ?tasks]" by blast
  have u: "[0..<length ?tasks] = [0, 1, 2]" by code_simp
  from r q i u show ?thesis by simp
qed

text \<open>
  Claim C2 as the specification states it does not hold: of two operations under the
  limit 1 the first fails; the call rejects with its error and the second operation is
  never invoked, whatever jobs follow.
\<close>

theorem parallel_failure_halts_counterexample:
  "phase (parallel [Inl ''boom'', Inr ''b'' :: string + string] 1
            [Settle 0, Cleanup 0, Resume, Settle 1, Cleanup 1, Resume]) = Rejected ''boom''
   \<and> invoked (parallel [Inl ''boom'', Inr ''b'' :: string + string] 1
            [Settle 0, Cleanup 0, Resume, Settle 1, Cleanup 1, Resume]) = [0]"
  by (simp add: run_simps)

text \<open>
  Claim C2, amended. The failure of an operation fails the batch: a batch with an operation
  that fails never resolves. Once \<^verbatim>\<open>parallel\<close> has rejected, the error is the error of
  one operation that was invoked, the rejection stays, and no further operation is
  invoked; the operations in flight are not aborted: each still settles with its own
  outcome.
\<close>

theorem parallel_fail_fast:
  "(p < length tasks \<and> isl (tasks ! p) \<longrightarrow> phase (parallel tasks concurrency s1) \<noteq> Resolved vs)
   \<and> (phase (parallel tasks concurrency s1) = Rejected e \<longrightarrow>
        (\<exists>q\<in>set (invoked (parallel tasks concurrency s1)). q < length tasks \<and> tasks ! q = Inl e)
        \<and> phase (parallel tasks concurrency (s1 @ s2)) = Rejected e
        \<and> invoked (parallel tasks concurrency (s1 @ s2)) = invoked (parallel tasks concurrency s1)
        \<and> (\<forall>q. q < index (parallel tasks concurrency s1)
                 \<and> results (parallel tasks concurrency s1) ! q = None \<longrightarrow>
               results (parallel tasks concurrency (s1 @ [Settle q])) ! q = Some (tasks ! q)))"
proof -
  let ?st = "parallel tasks concurrency s1"
  have wf: "well_formed tasks ?st" by (rule well_formed_parallel)
  have ok: "phase_ok tasks ?st" by (rule phase_ok_parallel)
  have inv: "invoked ?st = [0..<index ?st]" using wf by (simp add: well_formed_def)
  have 0: "phase ?st \<noteq> Resolved vs" if p: "p < length tasks" "isl (tasks ! p)"
  proof
    assume "phase ?st = Resolved vs"
    then have "tasks = map Inr vs" by (rule resolved_values [OF wf ok])
    then have "tasks ! p = Inr (vs ! p)" using p(1) by (metis length_map nth_map)
    then show False using p(2) by simp
  qed
  have 1: "\<exists>q\<in>set (invoked ?st). q < length tasks \<and> tasks ! q = Inl e"
    if rej: "phase ?st = Rejected e"
    using rejected_error [OF wf ok rej] inv by auto
  have 2: "phase (parallel tasks concurrency (s1 @ s2)) = Rejected e
     \<and> invoked (parallel tasks concurrency (s1 @ s2)) = invoked ?st"
    if rej: "phase ?st = Rejected e"
    using rejected_foldl [OF rej, of tasks concurrency s2] by (simp add: parallel_append)
  have 3: "results (parallel tasks concurrency (s1 @ [Settle q])) ! q = Some (tasks ! q)"
    if "phase ?st = Rejected e" "q < index ?st" "results ?st ! q = None" for q
  proof -
    have "q < length tasks" "q < length (results ?st)" using wf that by (auto simp: well_formed_def)
    then show ?thesis using that
      by (simp add: parallel_append promise_state_def Let_def)
  qed
  show ?thesis using 0 1 2 3 by blast
qed

theorem parallel_fail_fast_witness:
  "phase (parallel [Inr ''a'', Inl ''boom'', Inr ''c'', Inr ''d'' :: string + string] 2
            [Settle 1, Cleanup 1, Resume]) = Rejected ''boom''
   \<and> phase (parallel [Inr ''a'', Inl ''boom'', Inr ''c'', Inr ''d'' :: string + string] 2
            ([Settle 1, Cleanup 1, Resume] @ [Settle 0, Cleanup 0, Resume])) = Rejected ''boom''
   \<and> invoked (parallel [Inr ''a'', Inl ''boom'', Inr ''c'', Inr ''d'' :: string + string] 2
            ([Settle 1, Cleanup 1, Resume] @ [Settle 0, Cleanup 0, Resume])) = [0, 1]
   \<and> results (parallel [Inr ''a'', Inl ''boom'', Inr ''c'', Inr ''d'' :: string + string] 2
            ([Settle 1, Cleanup 1, Resume] @ [Settle 0])) ! 0 = Some (Inr ''a'')
   \<and> phase (parallel [Inr ''a'', Inl ''boom'', Inr ''c'', Inr ''d'' :: string + string] 2
            [Settle 1, Cleanup 1, Resume]) \<noteq> Resolved [''a'', ''b'', ''c'', ''d'']"
proof -
  let ?tasks = "[Inr ''a'', Inl ''boom'', Inr ''c'', Inr ''d'' :: string + string]"
  have s: "parallel ?tasks 2 [Settle 1, Cleanup 1, Resume] =
     \<lparr>index = 2, results = [None, Some (Inl ''boom'')], executing = [0], phase = Rejected ''boom'',
      invoked = [0, 1], high_water = 2\<rparr>"
    by (simp add: run_simps)
  then have h: "phase (parallel ?tasks 2 [Settle 1, Cleanup 1, Resume]) = Rejected ''boom''" by simp
  have f: "1 < length ?tasks \<and> isl (?tasks ! 1)" by simp
  have i: "0 < index (parallel ?tasks 2 [Settle 1, Cleanup 1, Resume])
     \<and> results (parallel ?tasks 2 [Settle 1, Cleanup 1, Resume]) ! 0 = None"
    using s by simp
  from parallel_fail_fast [of 1 ?tasks 2 "[Settle 1, Cleanup 1, Resume]" "[''a'', ''b'', ''c'', ''d'']"
      "''boom''" "[Settle 0, Cleanup 0, Resume]"] f h i
  have "phase (parallel ?tasks 2 [Settle 1, Cleanup 1, Resume]) \<noteq> Resolved [''a'', ''b'', ''c'', ''d'']"
    "phase (parallel ?tasks 2 ([Settle 1, Cleanup 1, Resume] @ [Settle 0, Cleanup 0, Resume])) = Rejected ''boom''"
    "invoked (parallel ?tasks 2 ([Settle 1, Cleanup 1, Resume] @ [Settle 0, Cleanup 0, Resume])) =
       invoked (parallel ?tasks 2 [Settle 1, Cleanup 1, Resume])"
    "results (parallel ?tasks 2 ([Settle 1, Cleanup 1, Resume] @ [Settle 0])) ! 0 = Some (?tasks ! 0)"
    by blast+
  with s h show ?thesis by simp
qed

end
